theory Spec2Isabelle
  imports Complex_Main "HOL-Library.Multiset"
begin

section \<open>Configuration constants of CapCutTimeline.tsx\<close>

text \<open>
  The module constants that depend on the device (\<open>IS_LOW_END_DEVICE\<close>, the screen
  width) are functions of that device property. JavaScript numbers that hold times and
  pixel offsets are modelled as reals; counts and indices as naturals.
\<close>

definition THUMBNAIL_COUNT :: "bool \<Rightarrow> nat" where
  "THUMBNAIL_COUNT isLowEndDevice = (if isLowEndDevice then 6 else 10)"

definition MAX_CONCURRENT_THUMBNAILS :: "bool \<Rightarrow> nat" where
  "MAX_CONCURRENT_THUMBNAILS isLowEndDevice = (if isLowEndDevice then 2 else 4)"

definition TIMELINE_PADDING :: real where
  "TIMELINE_PADDING = 20"

definition TIMELINE_WIDTH :: "real \<Rightarrow> real" where
  "TIMELINE_WIDTH screenWidth = screenWidth - TIMELINE_PADDING * 2"

section \<open>ThumbnailCache\<close>

text \<open>
  A JavaScript \<open>Map\<close> iterates in insertion order, and \<open>Map.set\<close> on a key that is
  present replaces the value where the entry stands. The map is therefore a list of
  entries, oldest first, with one entry per key.
\<close>

type_synonym thumbs = "string option list"

type_synonym tcache = "(string \<times> thumbs) list"

fun js_map_set :: "(string \<times> 'v) list \<Rightarrow> string \<Rightarrow> 'v \<Rightarrow> (string \<times> 'v) list" where
  "js_map_set [] k v = [(k, v)]"
| "js_map_set ((k', v') # m) k v =
     (if k' = k then (k, v) # m else (k', v') # js_map_set m k v)"

definition js_map_delete :: "(string \<times> 'v) list \<Rightarrow> string \<Rightarrow> (string \<times> 'v) list" where
  "js_map_delete m k = filter (\<lambda>e. fst e \<noteq> k) m"

definition js_map_first_key :: "(string \<times> 'v) list \<Rightarrow> string option" where
  \<comment> \<open>\<open>m.keys().next().value\<close>: \<open>undefined\<close> on an empty map\<close>
  "js_map_first_key m = (case m of [] \<Rightarrow> None | e # _ \<Rightarrow> Some (fst e))"

definition maxSize :: nat where
  "maxSize = 5"

definition cache_get :: "tcache \<Rightarrow> string \<Rightarrow> thumbs option" where
  "cache_get c key = map_of c key"

definition cache_set :: "tcache \<Rightarrow> string \<Rightarrow> thumbs \<Rightarrow> tcache" where
  \<comment> \<open>\<open>if (firstKey)\<close> is a truthiness test: \<open>undefined\<close> and the empty string skip the delete\<close>
  "cache_set c key thumbnails =
     js_map_set
       (if maxSize \<le> length c
        then (case js_map_first_key c of
                None \<Rightarrow> c
              | Some firstKey \<Rightarrow> if firstKey \<noteq> [] then js_map_delete c firstKey else c)
        else c)
       key thumbnails"

definition cache_clear :: "tcache \<Rightarrow> tcache" where
  "cache_clear c = []"

subsection \<open>The cache key\<close>

definition Math_round :: "real \<Rightarrow> int" where
  \<comment> \<open>\<open>Math.round\<close>: the nearest integer, a tie going up\<close>
  "Math_round x = \<lfloor>x + 1 / 2\<rfloor>"

definition digit_char :: "nat \<Rightarrow> char" where
  "digit_char n = ''0123456789'' ! n"

fun show_nat :: "nat \<Rightarrow> string" where
  "show_nat n =
     (if n < 10 then [digit_char n] else show_nat (n div 10) @ [digit_char (n mod 10)])"

declare show_nat.simps [simp del]

definition show_int :: "int \<Rightarrow> string" where
  \<comment> \<open>a template literal prints an integer below \<open>10^21\<close> in decimal\<close>
  "show_int i = (if i < 0 then CHR ''-'' # show_nat (nat (- i)) else show_nat (nat i))"

definition cacheKey :: "string \<Rightarrow> real \<Rightarrow> string" where
  "cacheKey videoUri dur = videoUri @ ''_'' @ show_int (Math_round dur)"

text \<open>
  The only call of \<open>cache.set\<close> in the module passes \<open>cacheKey\<close>; \<open>clear\<close> has no
  caller but is part of the class. A history of the cache is a list of such calls.
\<close>

datatype cache_call = CacheSet string real thumbs | CacheClear

fun cache_apply :: "tcache \<Rightarrow> cache_call \<Rightarrow> tcache" where
  "cache_apply c (CacheSet videoUri dur thumbnails) = cache_set c (cacheKey videoUri dur) thumbnails"
| "cache_apply c CacheClear = cache_clear c"

definition cache_after :: "cache_call list \<Rightarrow> tcache" where
  "cache_after calls = foldl cache_apply [] calls"

fun call_key :: "cache_call \<Rightarrow> string" where
  "call_key (CacheSet videoUri dur thumbnails) = cacheKey videoUri dur"
| "call_key CacheClear = []"

fun is_set :: "cache_call \<Rightarrow> bool" where
  "is_set (CacheSet videoUri dur thumbnails) = True"
| "is_set CacheClear = False"

section \<open>generateThumbnailsWithLimit\<close>

text \<open>
  The function runs on a single-threaded event loop. Its promises are named by the index
  of their task. A state holds the tasks the \<open>for\<close> loop has not reached, the array
  \<open>executing\<close>, the array \<open>results\<close>, and whether the loop is suspended at
  \<open>await Promise.race(executing)\<close>. Two things happen:
  \<^item> \<open>Admit\<close>: one iteration of the loop runs: the next task is called, its promise is
    pushed on \<open>executing\<close>, and the loop suspends when \<open>executing.length >= limit\<close>;
  \<^item> \<open>Settle i\<close>: task \<open>i\<close> resolves: its \<open>then\<close> callback pushes the result on
    \<open>results\<close> and splices the promise out of \<open>executing\<close>, which also resolves a pending
    \<open>Promise.race\<close>, so the loop is no longer suspended.
  The order of the \<open>Settle\<close> events is chosen by the environment (the extraction
  primitive). Tasks never reject here: each task of the caller catches its own failure.
  The callback of a settled task and the resumption of the loop are one step, since no
  other task of the event loop runs between them. A schedule may interleave \<open>Settle\<close>
  with a loop that could go on; the event loop runs the loop first, so the schedules of
  the program are among the ones considered here.
\<close>

record 'a pool =
  pending :: "nat list"
  executing :: "nat list"
  results :: "'a list"
  waiting :: bool

datatype pool_event = Admit | Settle nat

definition pool_init :: "nat \<Rightarrow> 'a pool" where
  "pool_init n = \<lparr>pending = [0..<n], executing = [], results = [], waiting = False\<rparr>"

fun pool_step :: "nat \<Rightarrow> (nat \<Rightarrow> 'a) \<Rightarrow> pool_event \<Rightarrow> 'a pool \<Rightarrow> 'a pool option" where
  "pool_step limit outcome Admit p =
     (if waiting p then None
      else (case pending p of
              [] \<Rightarrow> None
            | i # rest \<Rightarrow>
                Some \<lparr>pending = rest, executing = executing p @ [i], results = results p,
                      waiting = (limit \<le> length (executing p @ [i]))\<rparr>))"
| "pool_step limit outcome (Settle i) p =
     (if i \<in> set (executing p)
      then Some \<lparr>pending = pending p, executing = remove1 i (executing p),
                 results = results p @ [outcome i], waiting = False\<rparr>
      else None)"

fun pool_run :: "nat \<Rightarrow> (nat \<Rightarrow> 'a) \<Rightarrow> pool_event list \<Rightarrow> 'a pool \<Rightarrow> 'a pool option" where
  "pool_run limit outcome [] p = Some p"
| "pool_run limit outcome (e # es) p =
     (case pool_step limit outcome e p of
        None \<Rightarrow> None
      | Some p' \<Rightarrow> pool_run limit outcome es p')"

definition generateThumbnailsWithLimit ::
    "nat \<Rightarrow> (nat \<Rightarrow> 'a) \<Rightarrow> nat \<Rightarrow> pool_event list \<Rightarrow> 'a list option" where
  \<comment> \<open>\<open>n\<close> tasks, task \<open>i\<close> resolving with \<open>outcome i\<close>; the value returned once the loop has
      ended and \<open>Promise.all(executing)\<close> has resolved, under the schedule \<open>sched\<close>\<close>
  "generateThumbnailsWithLimit n outcome limit sched =
     (case pool_run limit outcome sched (pool_init n) of
        None \<Rightarrow> None
      | Some p \<Rightarrow> if pending p = [] \<and> executing p = [] then Some (results p) else None)"

section \<open>The generation effect\<close>

definition timeMs :: "real \<Rightarrow> nat \<Rightarrow> nat \<Rightarrow> real" where
  "timeMs dur cnt i = (dur / real cnt) * real i * 1000"

definition thumbnailTask :: "(real \<Rightarrow> string option) \<Rightarrow> real \<Rightarrow> nat \<Rightarrow> bool \<Rightarrow> nat \<Rightarrow> string option" where
  \<comment> \<open>\<open>getThumbnailAsync t\<close> is \<open>Some uri\<close>, or \<open>None\<close> when the extraction throws;
      \<open>aborted\<close> is the controller's signal when the task starts\<close>
  "thumbnailTask getThumbnailAsync dur cnt aborted i =
     (if aborted then None else getThumbnailAsync (timeMs dur cnt i))"

definition requestedTimes :: "real \<Rightarrow> nat \<Rightarrow> real list" where
  \<comment> \<open>the \<open>time\<close> options of the tasks built by \<open>Array.from({ length: THUMBNAIL_COUNT }, ...)\<close>,
      in the order of the tasks\<close>
  "requestedTimes dur cnt = map (timeMs dur cnt) [0..<cnt]"

definition truthy :: "string option \<Rightarrow> bool" where
  "truthy uri = (case uri of None \<Rightarrow> False | Some u \<Rightarrow> u \<noteq> [])"

definition js_assign :: "'a option list \<Rightarrow> nat \<Rightarrow> 'a option \<Rightarrow> 'a option list" where
  \<comment> \<open>\<open>xs[i] = v\<close>: an index past the end extends the array, the gap read as absent\<close>
  "js_assign xs i v =
     (if i < length xs then xs[i := v] else xs @ replicate (i - length xs) None @ [v])"

definition orderResults :: "nat \<Rightarrow> string option list \<Rightarrow> thumbs" where
  \<comment> \<open>\<open>orderedResults\<close>: \<open>Array(THUMBNAIL_COUNT).fill(null)\<close>, then \<open>results.forEach((uri, idx) => ...)\<close>\<close>
  "orderResults cnt rs =
     foldl (\<lambda>ordered (idx, uri). if truthy uri then js_assign ordered idx uri else ordered)
       (replicate cnt None) (zip [0..<length rs] rs)"

definition generate ::
    "nat \<Rightarrow> nat \<Rightarrow> (real \<Rightarrow> string option) \<Rightarrow> real \<Rightarrow> pool_event list \<Rightarrow> thumbs option" where
  \<comment> \<open>the sequence a run that is not cancelled writes to the screen state and the cache\<close>
  "generate cnt limit getThumbnailAsync dur sched =
     (case generateThumbnailsWithLimit cnt (thumbnailTask getThumbnailAsync dur cnt False)
             limit sched of
        None \<Rightarrow> None
      | Some rs \<Rightarrow> Some (orderResults cnt rs))"

text \<open>
  The state of one mounted \<open>CapCutTimeline\<close> that the generation effect touches, with the
  process-wide cache. An \<open>AbortController\<close> is a natural number; \<open>abortedCtls\<close> lists the
  controllers whose signal is aborted. \<open>cleanupCtl\<close> is the controller that the cleanup
  returned by the last run of the effect aborts. \<open>runs\<close> maps the controller of each
  started \<open>generate()\<close> to the \<open>cacheKey\<close> of its closure. The \<open>catch\<close> branch of
  \<open>generate\<close> is not modelled: \<open>generateThumbnailsWithLimit\<close> cannot throw, since no task
  rejects. A run resolves once; the model also admits a run that resolves again.
\<close>

record screen =
  thumbnails :: thumbs
  isLoadingThumbnails :: bool
  isMounted :: bool
  abortControllerRef :: "nat option"
  abortedCtls :: "nat list"
  nextCtl :: nat
  cleanupCtl :: "nat option"
  runs :: "(nat \<times> string) list"
  cache :: tcache

definition screen_init :: "nat \<Rightarrow> tcache \<Rightarrow> screen" where
  "screen_init cnt c =
     \<lparr>thumbnails = replicate cnt None, isLoadingThumbnails = True, isMounted = True,
      abortControllerRef = None, abortedCtls = [], nextCtl = 0, cleanupCtl = None,
      runs = [], cache = c\<rparr>"

definition abort :: "nat option \<Rightarrow> screen \<Rightarrow> screen" where
  \<comment> \<open>\<open>ctl?.abort()\<close>\<close>
  "abort ctl s =
     (case ctl of
        None \<Rightarrow> s
      | Some c \<Rightarrow> if c \<in> set (abortedCtls s) then s else s\<lparr>abortedCtls := c # abortedCtls s\<rparr>)"

datatype screen_event =
    Mount
  | Unmount
  | GenerationEffect string real
  | RunResolved nat "string option list"

definition generationEffect :: "nat \<Rightarrow> string \<Rightarrow> real \<Rightarrow> screen \<Rightarrow> screen" where
  \<comment> \<open>the cleanup of the effect's previous run, then its body for the new dependencies\<close>
  "generationEffect cnt videoUri dur s0 =
     (let s1 = (abort (cleanupCtl s0) s0)\<lparr>cleanupCtl := None\<rparr> in
      if dur \<le> 0 \<or> videoUri = [] then s1
      else
        let controller = nextCtl s1;
            s2 = (abort (abortControllerRef s1) s1)
                   \<lparr>abortControllerRef := Some controller, nextCtl := Suc controller\<rparr>;
            key = cacheKey videoUri dur
        in (case cache_get (cache s2) key of
              Some cached \<Rightarrow>
                if length cached = cnt
                then s2\<lparr>thumbnails := cached, isLoadingThumbnails := False\<rparr>
                else (if isMounted s2
                      then s2\<lparr>isLoadingThumbnails := True, runs := (controller, key) # runs s2\<rparr>
                      else s2)\<lparr>cleanupCtl := Some controller\<rparr>
            | None \<Rightarrow>
                (if isMounted s2
                 then s2\<lparr>isLoadingThumbnails := True, runs := (controller, key) # runs s2\<rparr>
                 else s2)\<lparr>cleanupCtl := Some controller\<rparr>))"

definition runResolved :: "nat \<Rightarrow> nat \<Rightarrow> string option list \<Rightarrow> screen \<Rightarrow> screen" where
  \<comment> \<open>the code after \<open>await generateThumbnailsWithLimit(...)\<close> in the run of \<open>controller\<close>\<close>
  "runResolved cnt controller rs s =
     (case map_of (runs s) controller of
        None \<Rightarrow> s
      | Some key \<Rightarrow>
          if controller \<notin> set (abortedCtls s) \<and> isMounted s
          then let orderedResults = orderResults cnt rs in
               s\<lparr>thumbnails := orderedResults, isLoadingThumbnails := False,
                 cache := (if list_ex (\<lambda>r. r \<noteq> None) orderedResults
                           then cache_set (cache s) key orderedResults else cache s)\<rparr>
          else s)"

fun screen_step :: "nat \<Rightarrow> screen_event \<Rightarrow> screen \<Rightarrow> screen" where
  "screen_step cnt Mount s = s\<lparr>isMounted := True\<rparr>"
| "screen_step cnt Unmount s =
     (abort (cleanupCtl s) (abort (abortControllerRef s) (s\<lparr>isMounted := False\<rparr>)))
       \<lparr>cleanupCtl := None\<rparr>"
| "screen_step cnt (GenerationEffect videoUri dur) s = generationEffect cnt videoUri dur s"
| "screen_step cnt (RunResolved controller rs) s = runResolved cnt controller rs s"

fun screen_run :: "nat \<Rightarrow> screen_event list \<Rightarrow> screen \<Rightarrow> screen" where
  "screen_run cnt [] s = s"
| "screen_run cnt (e # es) s = screen_run cnt es (screen_step cnt e s)"

fun resolves :: "nat \<Rightarrow> screen_event \<Rightarrow> bool" where
  "resolves c (RunResolved controller rs) = (controller = c)"
| "resolves c Mount = False"
| "resolves c Unmount = False"
| "resolves c (GenerationEffect videoUri dur) = False"

section \<open>Playback position and gestures\<close>

record position =
  duration :: real
  displayTime :: real
  progress :: real
  isDragging :: bool
  playerCurrentTime :: real

definition timeUpdate :: "real \<Rightarrow> position \<Rightarrow> position" where
  \<comment> \<open>the \<open>timeUpdate\<close> listener, \<open>t\<close> being \<open>payload.currentTime\<close>\<close>
  "timeUpdate t s =
     (if \<not> isDragging s \<and> 0 < duration s
      then s\<lparr>progress := t / duration s, displayTime := t\<rparr>
      else s)"

definition statusChange :: "real \<Rightarrow> position \<Rightarrow> position" where
  "statusChange playerDuration s = (if 0 < playerDuration then s\<lparr>duration := playerDuration\<rparr> else s)"

definition tap_onEnd :: "real \<Rightarrow> real \<Rightarrow> position \<Rightarrow> position" where
  "tap_onEnd width event_x s =
     (let x = max 0 (min event_x width);
          newProgress = x / width;
          newTime = newProgress * duration s
      in s\<lparr>progress := newProgress, playerCurrentTime := newTime, displayTime := newTime\<rparr>)"

definition pan_onStart :: "position \<Rightarrow> position" where
  "pan_onStart s = s\<lparr>isDragging := True\<rparr>"

definition pan_onUpdate :: "real \<Rightarrow> real \<Rightarrow> position \<Rightarrow> position" where
  "pan_onUpdate width event_x s =
     (let x = max 0 (min event_x width);
          newProgress = x / width;
          newTime = newProgress * duration s
      in s\<lparr>progress := newProgress, displayTime := newTime\<rparr>)"

definition pan_onEnd :: "real \<Rightarrow> real \<Rightarrow> position \<Rightarrow> position" where
  "pan_onEnd width event_x s =
     (let x = max 0 (min event_x width);
          newProgress = x / width;
          newTime = newProgress * duration s
      in s\<lparr>playerCurrentTime := newTime, isDragging := False\<rparr>)"

definition clamp :: "real \<Rightarrow> real \<Rightarrow> real \<Rightarrow> real" where
  \<comment> \<open>the specification's \<open>clamp(x, lo, hi)\<close>\<close>
  "clamp x lo hi = (if x < lo then lo else if hi < x then hi else x)"

definition position_init :: position where
  \<comment> \<open>the state at mount: \<open>useState(0)\<close>, \<open>useSharedValue(0)\<close>, \<open>useSharedValue(false)\<close>\<close>
  "position_init =
     \<lparr>duration = 0, displayTime = 0, progress = 0, isDragging = False, playerCurrentTime = 0\<rparr>"

section \<open>Auxiliary definitions for the proofs\<close>

text \<open>
  The invariant of every cache the module can build: one entry per key, no empty key
  (a cache key always contains the separator), and at most \<open>maxSize\<close> entries.
\<close>

definition cache_inv :: "tcache \<Rightarrow> bool" where
  "cache_inv c = (distinct (map fst c) \<and> [] \<notin> set (map fst c) \<and> length c \<le> maxSize)"

text \<open>Six stores under six different keys, used to evaluate the cache.\<close>

definition six_calls :: "cache_call list" where
  "six_calls =
     [CacheSet ''a'' 10 [Some ''a0''], CacheSet ''b'' 10 [Some ''b0''],
      CacheSet ''c'' 10 [Some ''c0''], CacheSet ''d'' 10 [Some ''d0''],
      CacheSet ''e'' 10 [Some ''e0''], CacheSet ''f'' 10 [Some ''f0'']]"

text \<open>
  The invariant of \<open>generateThumbnailsWithLimit\<close> for a positive limit: \<open>executing\<close>
  never holds more than \<open>limit\<close> promises, and the loop is suspended exactly when it
  holds \<open>limit\<close> of them.
\<close>

definition pool_inv :: "nat \<Rightarrow> 'a pool \<Rightarrow> bool" where
  "pool_inv limit p =
     (length (executing p) \<le> limit \<and> (waiting p = (length (executing p) = limit)))"

text \<open>
  The tasks that settle in a schedule, in the order in which they settle, and the
  schedule in which every task settles before the next one is admitted.
\<close>

fun settles :: "pool_event list \<Rightarrow> nat list" where
  "settles [] = []"
| "settles (Admit # es) = settles es"
| "settles (Settle i # es) = i # settles es"

definition sequential_schedule :: "nat \<Rightarrow> pool_event list" where
  "sequential_schedule n = concat (map (\<lambda>i. [Admit, Settle i]) [0..<n])"

text \<open>
  What the truthiness test of \<open>forEach\<close> leaves of one result: \<open>null\<close> and the empty
  string become \<open>null\<close>.
\<close>

definition or_null :: "string option \<Rightarrow> string option" where
  "or_null uri = (if truthy uri then uri else None)"

text \<open>
  Inputs for evaluating a run on a low-end device (six thumbnails, two extractions at a
  time) for a video of 60 seconds: a schedule in which the extractions settle in the
  order they were started, one in which extraction 1 settles before extraction 0, an
  extraction primitive that succeeds at every sample time, and one that fails at time 0.
\<close>

definition in_order_schedule :: "pool_event list" where
  "in_order_schedule =
     [Admit, Admit, Settle 0, Admit, Settle 1, Admit, Settle 2, Admit, Settle 3,
      Admit, Settle 4, Settle 5]"

definition low_end_schedule :: "pool_event list" where
  "low_end_schedule =
     [Admit, Admit, Settle 1, Admit, Settle 0, Admit, Settle 2, Admit, Settle 3,
      Admit, Settle 4, Settle 5]"

definition frames :: "real \<Rightarrow> string option" where
  "frames t =
     (if t = 0 then Some ''f0'' else if t = 10000 then Some ''f10''
      else if t = 20000 then Some ''f20'' else if t = 30000 then Some ''f30''
      else if t = 40000 then Some ''f40'' else if t = 50000 then Some ''f50'' else None)"

definition frames_first_fails :: "real \<Rightarrow> string option" where
  "frames_first_fails t = (if t = 0 then None else frames t)"

text \<open>
  Every started run is either cancelled or the run that the pending cleanup cancels.
\<close>

definition runs_inv :: "screen \<Rightarrow> bool" where
  "runs_inv s =
     list_all (\<lambda>r. fst r \<in> set (abortedCtls s) \<or> cleanupCtl s = Some (fst r)) (runs s)"

text \<open>
  A screen on which a first run was started for \<open>a.mp4\<close>, the same screen after the
  dependencies changed to \<open>b.mp4\<close>, and the results of the two runs.
\<close>

definition first_run_screen :: screen where
  "first_run_screen = screen_step 6 (GenerationEffect ''a.mp4'' 60) (screen_init 6 [])"

definition superseded_screen :: screen where
  "superseded_screen = screen_step 6 (GenerationEffect ''b.mp4'' 30) first_run_screen"

text \<open>
  A screen on which a run was started for \<open>a.mp4\<close> with a duration of 59.6 seconds,
  which rounds to 60.
\<close>

definition fractional_run_screen :: screen where
  "fractional_run_screen = screen_step 6 (GenerationEffect ''a.mp4'' (298 / 5)) (screen_init 6 [])"

definition frames_a :: "string option list" where
  "frames_a = [Some ''a0'', None, Some ''a20'', Some ''a30'', Some ''a40'', Some ''a50'']"

definition frames_b :: "string option list" where
  "frames_b = [Some ''b0'', Some ''b5'', Some ''b10'', Some ''b15'', Some ''b20'', Some ''b25'']"

text \<open>
  A position that follows the player, 20 seconds into a video of 100 seconds.
\<close>

definition following_position :: position where
  "following_position =
     \<lparr>duration = 100, displayTime = 20, progress = 1 / 5, isDragging = False,
      playerCurrentTime = 0\<rparr>"

section \<open>Properties of the cache\<close>


lemma js_map_set_keys:
  "map fst (js_map_set m k v) = (if k \<in> set (map fst m) then map fst m else map fst m @ [k])"
  by (induction m) (simp, force)

lemma js_map_set_length:
  "length (js_map_set m k v) = (if k \<in> set (map fst m) then length m else Suc (length m))"
  using arg_cong [OF js_map_set_keys [of m k v], of length] by (simp split: if_splits)

lemma js_map_set_lookup: "map_of (js_map_set m k v) k = Some v"
  by (induction m) auto

lemma js_map_set_fresh: "k \<notin> set (map fst m) \<Longrightarrow> js_map_set m k v = m @ [(k, v)]"
  by (induction m) auto

lemma js_map_delete_first:
  "distinct (map fst (e # m)) \<Longrightarrow> js_map_delete (e # m) (fst e) = m"
  by (auto simp: js_map_delete_def filter_id_conv image_iff)

lemma cacheKey_nonempty: "cacheKey videoUri dur \<noteq> []"
  by (simp add: cacheKey_def)

lemma cache_set_full:
  assumes "cache_inv c" "length c = maxSize"
  shows "cache_set c k v = js_map_set (tl c) k v"
proof (cases c)
  case Nil
  with assms show ?thesis by (simp add: maxSize_def)
next
  case (Cons e m)
  with assms have "fst e \<noteq> []" "distinct (map fst (e # m))"
    by (auto simp: cache_inv_def)
  then show ?thesis
    using Cons assms(2) js_map_delete_first [of e m]
    by (simp add: cache_set_def js_map_first_key_def)
qed

lemma cache_set_room:
  assumes "length c < maxSize"
  shows "cache_set c k v = js_map_set c k v"
  using assms by (simp add: cache_set_def)

lemma cache_inv_tl: "cache_inv c \<Longrightarrow> cache_inv (tl c)"
  by (cases c) (auto simp: cache_inv_def)

lemma js_map_set_inv:
  assumes "cache_inv c" "k \<noteq> []" "length c < maxSize"
  shows "cache_inv (js_map_set c k v)"
  using assms by (auto simp: cache_inv_def js_map_set_keys js_map_set_length simp del: set_map)

lemma cache_set_inv:
  assumes "cache_inv c" "k \<noteq> []"
  shows "cache_inv (cache_set c k v)"
proof (cases "length c < maxSize")
  case True
  with assms show ?thesis by (simp add: cache_set_room js_map_set_inv)
next
  case False
  with assms have full: "length c = maxSize" by (simp add: cache_inv_def)
  then have "length (tl c) < maxSize" by (simp add: maxSize_def)
  with assms full show ?thesis
    by (simp add: cache_set_full js_map_set_inv cache_inv_tl)
qed

lemma cache_apply_inv:
  assumes "cache_inv c"
  shows "cache_inv (cache_apply c call)"
proof (cases call)
  case (CacheSet videoUri dur thumbnails)
  then show ?thesis using assms by (simp add: cache_set_inv cacheKey_nonempty)
next
  case CacheClear
  then show ?thesis by (simp add: cache_clear_def cache_inv_def)
qed

lemma foldl_cache_inv: "cache_inv c \<Longrightarrow> cache_inv (foldl cache_apply c calls)"
  by (induction calls arbitrary: c) (simp_all add: cache_apply_inv)

lemma cache_after_inv: "cache_inv (cache_after calls)"
  unfolding cache_after_def by (rule foldl_cache_inv) (simp add: cache_inv_def)

lemma cache_keys_below_capacity:
  assumes "list_all is_set calls" "distinct (map call_key calls)" "length calls \<le> maxSize"
  shows "map fst (cache_after calls) = map call_key calls"
  using assms
proof (induction calls rule: rev_induct)
  case Nil
  then show ?case by (simp add: cache_after_def)
next
  case (snoc x xs)
  then have IH: "map fst (cache_after xs) = map call_key xs" by simp
  then have len: "length (cache_after xs) = length xs"
    by (metis length_map)
  from snoc.prems obtain videoUri dur thumbnails where x: "x = CacheSet videoUri dur thumbnails"
    by (cases x) auto
  have fresh: "call_key x \<notin> set (map fst (cache_after xs))"
    using snoc.prems(2) IH by simp
  have "cache_after (xs @ [x]) = cache_set (cache_after xs) (call_key x) thumbnails"
    by (simp add: cache_after_def x)
  also have "\<dots> = js_map_set (cache_after xs) (call_key x) thumbnails"
    using snoc.prems(3) len by (simp add: cache_set_room)
  finally show ?case
    using fresh IH by (simp add: js_map_set_keys)
qed

lemma cache_keys_one_past_capacity:
  assumes "length calls = maxSize + 1" "list_all is_set calls" "distinct (map call_key calls)"
  shows "map fst (cache_after calls) = tl (map call_key calls)"
proof -
  from assms(1) obtain xs x where calls: "calls = xs @ [x]" and lxs: "length xs = maxSize"
    by (cases calls rule: rev_cases) auto
  from assms(2) calls obtain videoUri dur thumbnails where x: "x = CacheSet videoUri dur thumbnails"
    by (cases x) auto
  have keys: "map fst (cache_after xs) = map call_key xs"
    using assms calls lxs by (intro cache_keys_below_capacity) auto
  then have len: "length (cache_after xs) = maxSize"
    using lxs by (metis length_map)
  have fresh: "call_key x \<notin> set (map fst (tl (cache_after xs)))"
  proof
    assume "call_key x \<in> set (map fst (tl (cache_after xs)))"
    then have "call_key x \<in> set (tl (map call_key xs))"
      using keys by (simp add: map_tl)
    then have "call_key x \<in> set (map call_key xs)"
      by (cases "map call_key xs") auto
    then show False using assms(3) calls by auto
  qed
  have "cache_after calls = cache_set (cache_after xs) (call_key x) thumbnails"
    by (simp add: cache_after_def calls x)
  also have "\<dots> = js_map_set (tl (cache_after xs)) (call_key x) thumbnails"
    using len by (simp add: cache_set_full cache_after_inv)
  finally have "map fst (cache_after calls) = tl (map call_key xs) @ [call_key x]"
    using fresh keys by (simp add: js_map_set_keys map_tl)
  moreover have "xs \<noteq> []" using lxs by (auto simp: maxSize_def)
  ultimately show ?thesis by (simp add: calls)
qed

text \<open>
  The truthiness test on \<open>firstKey\<close> means that a first key that is the empty string is
  never evicted. No key built by \<open>cacheKey\<close> is empty, so the histories of the module
  never meet this case; the lemma records what the class does there.
\<close>

lemma cache_set_empty_first_key:
  "cache_set [([], a), (''b'', b), (''c'', c), (''d'', d), (''e'', e)] ''f'' f =
     [([], a), (''b'', b), (''c'', c), (''d'', d), (''e'', e), (''f'', f)]"
  by (simp add: cache_set_def maxSize_def js_map_first_key_def)

text \<open>
  Claim C2. After any history of stores and clears the cache holds at most \<open>maxSize = 5\<close>
  entries. A store into a cache that holds \<open>maxSize\<close> entries first deletes the entry
  inserted earliest and then stores the value; for a key that is not present the result
  is the other entries followed by the new one. Storing \<open>maxSize + 1\<close> different keys
  leaves the keys of all stores but the first, in the order of the stores.
\<close>

theorem thumbnail_cache_fifo_bound:
  "length (cache_after calls) \<le> maxSize \<and>
   (length (cache_after calls) = maxSize \<longrightarrow>
      cache_set (cache_after calls) k t = js_map_set (tl (cache_after calls)) k t \<and>
      (k \<notin> set (map fst (cache_after calls)) \<longrightarrow>
         cache_set (cache_after calls) k t = tl (cache_after calls) @ [(k, t)])) \<and>
   (length calls = maxSize + 1 \<and> list_all is_set calls \<and> distinct (map call_key calls) \<longrightarrow>
      map fst (cache_after calls) = tl (map call_key calls))"
proof (intro conjI impI)
  show "length (cache_after calls) \<le> maxSize"
    using cache_after_inv [of calls] by (simp add: cache_inv_def)
next
  assume full: "length (cache_after calls) = maxSize"
  then show eq: "cache_set (cache_after calls) k t = js_map_set (tl (cache_after calls)) k t"
    by (simp add: cache_set_full cache_after_inv)
  assume "k \<notin> set (map fst (cache_after calls))"
  then have "k \<notin> set (map fst (tl (cache_after calls)))"
    by (cases "cache_after calls") auto
  then show "cache_set (cache_after calls) k t = tl (cache_after calls) @ [(k, t)]"
    using eq by (simp add: js_map_set_fresh)
next
  assume "length calls = maxSize + 1 \<and> list_all is_set calls \<and> distinct (map call_key calls)"
  then show "map fst (cache_after calls) = tl (map call_key calls)"
    by (simp add: cache_keys_one_past_capacity)
qed

lemma cacheKey_10: "cacheKey u 10 = u @ ''_10''"
  by (simp add: cacheKey_def Math_round_def show_int_def show_nat.simps digit_char_def)

lemma cache_after_six_calls:
  "cache_after six_calls =
     [(''b_10'', [Some ''b0'']), (''c_10'', [Some ''c0'']), (''d_10'', [Some ''d0'']),
      (''e_10'', [Some ''e0'']), (''f_10'', [Some ''f0''])]"
  by (simp add: six_calls_def cache_after_def cacheKey_10 cache_set_def maxSize_def
      js_map_first_key_def js_map_delete_def)

theorem thumbnail_cache_fifo_bound_witness:
  "length (cache_after six_calls) = maxSize \<and>
   ''g_10'' \<notin> set (map fst (cache_after six_calls)) \<and>
   cache_set (cache_after six_calls) ''g_10'' [] = tl (cache_after six_calls) @ [(''g_10'', [])] \<and>
   length six_calls = maxSize + 1 \<and> list_all is_set six_calls \<and>
   distinct (map call_key six_calls) \<and>
   map fst (cache_after six_calls) = [''b_10'', ''c_10'', ''d_10'', ''e_10'', ''f_10'']"
proof -
  have h1: "length (cache_after six_calls) = maxSize"
    by (simp add: cache_after_six_calls maxSize_def)
  have h2: "''g_10'' \<notin> set (map fst (cache_after six_calls))"
    by (simp add: cache_after_six_calls)
  have h3: "length six_calls = maxSize + 1 \<and> list_all is_set six_calls \<and>
      distinct (map call_key six_calls)"
    by (simp add: six_calls_def maxSize_def cacheKey_10)
  have h4: "tl (map call_key six_calls) = [''b_10'', ''c_10'', ''d_10'', ''e_10'', ''f_10'']"
    by (simp add: six_calls_def cacheKey_10)
  note T = thumbnail_cache_fifo_bound [of six_calls "''g_10''" "[]"]
  from T h1 h2 have a: "cache_set (cache_after six_calls) ''g_10'' [] =
      tl (cache_after six_calls) @ [(''g_10'', [])]"
    by blast
  from T h3 have b: "map fst (cache_after six_calls) = tl (map call_key six_calls)"
    by blast
  show ?thesis
    using a b h1 h2 h3 unfolding h4 by blast
qed


text \<open>
  Claim C10. A store under a key that is present, into a cache that holds \<open>maxSize\<close>
  entries, still deletes the oldest entry first. When the key is not the oldest, the
  oldest entry is lost, the key's value is replaced where it stands, and four entries
  remain. When the key is the oldest, its entry is deleted and stored again as the
  newest, and five entries remain.
\<close>

theorem cache_set_present_key_still_evicts:
  assumes c: "cache_after calls = (k0, v0) # rest"
    and full: "length (cache_after calls) = maxSize"
    and present: "k \<in> set (map fst (cache_after calls))"
  shows "(k \<noteq> k0 \<longrightarrow>
            cache_set (cache_after calls) k v = js_map_set rest k v \<and>
            map fst (cache_set (cache_after calls) k v) = map fst rest \<and>
            length (cache_set (cache_after calls) k v) = maxSize - 1 \<and>
            k0 \<notin> set (map fst (cache_set (cache_after calls) k v)) \<and>
            cache_get (cache_set (cache_after calls) k v) k = Some v) \<and>
         (k = k0 \<longrightarrow>
            cache_set (cache_after calls) k v = rest @ [(k, v)] \<and>
            length (cache_set (cache_after calls) k v) = maxSize)"
proof -
  have inv: "cache_inv (cache_after calls)" by (rule cache_after_inv)
  have eq: "cache_set (cache_after calls) k v = js_map_set rest k v"
    using cache_set_full [OF inv full, of k v] c by simp
  have k0: "k0 \<notin> set (map fst rest)"
    using inv c by (simp add: cache_inv_def)
  have len: "length rest = maxSize - 1"
    using full c by simp
  show ?thesis
  proof (intro conjI impI)
    assume "k \<noteq> k0"
    then have k: "k \<in> set (map fst rest)" using present c by auto
    show "cache_set (cache_after calls) k v = js_map_set rest k v" by (rule eq)
    show keys: "map fst (cache_set (cache_after calls) k v) = map fst rest"
      using k by (simp add: eq js_map_set_keys)
    show "length (cache_set (cache_after calls) k v) = maxSize - 1"
      using k len by (simp add: eq js_map_set_length)
    show "k0 \<notin> set (map fst (cache_set (cache_after calls) k v))"
      using k0 unfolding keys .
    show "cache_get (cache_set (cache_after calls) k v) k = Some v"
      by (simp add: eq cache_get_def js_map_set_lookup)
  next
    assume "k = k0"
    then have fresh: "k \<notin> set (map fst rest)" using k0 by simp
    then show "cache_set (cache_after calls) k v = rest @ [(k, v)]"
      by (simp add: eq js_map_set_fresh)
    then show "length (cache_set (cache_after calls) k v) = maxSize"
      using full c by simp
  qed
qed

theorem cache_set_present_key_still_evicts_witness:
  "cache_set (cache_after six_calls) ''d_10'' [None] =
     [(''c_10'', [Some ''c0'']), (''d_10'', [None]), (''e_10'', [Some ''e0'']),
      (''f_10'', [Some ''f0''])] \<and>
   length (cache_set (cache_after six_calls) ''d_10'' [None]) = 4 \<and>
   ''b_10'' \<notin> set (map fst (cache_set (cache_after six_calls) ''d_10'' [None])) \<and>
   cache_set (cache_after six_calls) ''b_10'' [None] =
     [(''c_10'', [Some ''c0'']), (''d_10'', [Some ''d0'']), (''e_10'', [Some ''e0'']),
      (''f_10'', [Some ''f0'']), (''b_10'', [None])] \<and>
   length (cache_set (cache_after six_calls) ''b_10'' [None]) = 5"
proof -
  let ?rest = "[(''c_10'', [Some ''c0'']), (''d_10'', [Some ''d0'']), (''e_10'', [Some ''e0'']),
      (''f_10'', [Some ''f0''])]"
  have c: "cache_after six_calls = (''b_10'', [Some ''b0'']) # ?rest"
    by (simp add: cache_after_six_calls)
  have full: "length (cache_after six_calls) = maxSize"
    by (simp add: cache_after_six_calls maxSize_def)
  have p1: "''d_10'' \<in> set (map fst (cache_after six_calls))"
    and p2: "''b_10'' \<in> set (map fst (cache_after six_calls))"
    by (simp_all add: cache_after_six_calls)
  have d: "''d_10'' \<noteq> ''b_10''" by simp
  note T1 = cache_set_present_key_still_evicts [OF c full p1, of "[None]"]
  note T2 = cache_set_present_key_still_evicts [OF c full p2, of "[None]"]
  from T1 d have a: "cache_set (cache_after six_calls) ''d_10'' [None] = js_map_set ?rest ''d_10'' [None]"
    and b: "length (cache_set (cache_after six_calls) ''d_10'' [None]) = maxSize - 1"
    and e: "''b_10'' \<notin> set (map fst (cache_set (cache_after six_calls) ''d_10'' [None]))"
    by blast+
  from T2 have f: "cache_set (cache_after six_calls) ''b_10'' [None] = ?rest @ [(''b_10'', [None])]"
    and g: "length (cache_set (cache_after six_calls) ''b_10'' [None]) = maxSize"
    by blast+
  have a': "js_map_set ?rest ''d_10'' [None] =
     [(''c_10'', [Some ''c0'']), (''d_10'', [None]), (''e_10'', [Some ''e0'']),
      (''f_10'', [Some ''f0''])]"
    by simp
  show ?thesis
    using a b e f g unfolding a' by (simp add: maxSize_def)
qed

section \<open>Properties of generateThumbnailsWithLimit\<close>

lemma pool_init_inv: "0 < limit \<Longrightarrow> pool_inv limit (pool_init n)"
  by (simp add: pool_inv_def pool_init_def)

lemma pool_step_inv:
  assumes "pool_inv limit p" "pool_step limit outcome e p = Some p'"
  shows "pool_inv limit p'"
proof (cases e)
  case Admit
  with assms show ?thesis
    by (auto simp: pool_inv_def split: if_splits list.splits)
next
  case (Settle i)
  with assms have i: "i \<in> set (executing p)"
    and p': "p' = \<lparr>pending = pending p, executing = remove1 i (executing p),
                 results = results p @ [outcome i], waiting = False\<rparr>"
    by (auto split: if_splits)
  from i have "length (remove1 i (executing p)) < length (executing p)"
    by (simp add: length_remove1) (cases "executing p", auto)
  with assms(1) show ?thesis
    by (simp add: pool_inv_def p')
qed

lemma pool_run_inv:
  "pool_inv limit p \<Longrightarrow> pool_run limit outcome evs p = Some p' \<Longrightarrow> pool_inv limit p'"
proof (induction evs arbitrary: p)
  case Nil
  then show ?case by simp
next
  case (Cons e evs)
  then show ?case
    by (auto split: option.splits dest: pool_step_inv)
qed

text \<open>
  Claim C9. For a positive limit, in every state a run can reach, at most \<open>limit\<close>
  extraction calls are in flight; and whenever fewer than \<open>limit\<close> are in flight the loop
  is not suspended, so that with a task left in the queue the next step of the loop
  admits that task. One settled call is enough to resume the loop: admission is a
  sliding window, not a batch.
\<close>

theorem sliding_window_admission:
  assumes "0 < limit" "pool_run limit outcome evs (pool_init n) = Some p"
  shows "length (executing p) \<le> limit \<and>
         (length (executing p) < limit \<longrightarrow> \<not> waiting p) \<and>
         (length (executing p) < limit \<and> pending p \<noteq> [] \<longrightarrow>
            (\<exists>p'. pool_step limit outcome Admit p = Some p' \<and>
                  executing p' = executing p @ [hd (pending p)] \<and>
                  pending p' = tl (pending p)))"
proof -
  have inv: "pool_inv limit p"
    using assms by (blast intro: pool_run_inv pool_init_inv)
  then have a: "length (executing p) \<le> limit"
    and b: "length (executing p) < limit \<longrightarrow> \<not> waiting p"
    by (auto simp: pool_inv_def)
  have "\<exists>p'. pool_step limit outcome Admit p = Some p' \<and>
                  executing p' = executing p @ [hd (pending p)] \<and>
                  pending p' = tl (pending p)"
    if "length (executing p) < limit" "pending p \<noteq> []"
    using that b by (cases "pending p") auto
  with a b show ?thesis by blast
qed

theorem sliding_window_admission_witness:
  "pool_run 2 (\<lambda>i. i) [Admit, Admit, Settle 0] (pool_init 6) =
     Some \<lparr>pending = [2, 3, 4, 5], executing = [1], results = [0], waiting = False\<rparr> \<and>
   pool_step 2 (\<lambda>i. i) Admit
       \<lparr>pending = [2, 3, 4, 5], executing = [1], results = [0::nat], waiting = False\<rparr> =
     Some \<lparr>pending = [3, 4, 5], executing = [1, 2], results = [0], waiting = True\<rparr>"
proof -
  have run: "pool_run 2 (\<lambda>i. i) [Admit, Admit, Settle 0] (pool_init 6) =
     Some \<lparr>pending = [2, 3, 4, 5], executing = [1], results = [0], waiting = False\<rparr>"
    by (simp add: pool_init_def upt_rec)
  have pos: "0 < (2::nat)" by simp
  from sliding_window_admission [OF pos run]
  have "\<exists>p'. pool_step 2 (\<lambda>i. i) Admit
       \<lparr>pending = [2, 3, 4, 5], executing = [1], results = [0::nat], waiting = False\<rparr> = Some p' \<and>
       executing p' = [1, 2] \<and> pending p' = [3, 4, 5]"
    by simp
  then show ?thesis using run by simp
qed

lemma pool_step_results:
  assumes "pool_step limit outcome e p = Some p'"
  shows "results p' = results p @ map outcome (settles [e]) \<and>
         mset (pending p') + mset (executing p') + mset (settles [e]) =
           mset (pending p) + mset (executing p) \<and>
         2 * length (pending p') + length (executing p') + 1 =
           2 * length (pending p) + length (executing p)"
proof (cases e)
  case Admit
  with assms show ?thesis
    by (auto split: if_splits list.splits)
next
  case (Settle i)
  with assms have i: "i \<in> set (executing p)"
    and p': "p' = \<lparr>pending = pending p, executing = remove1 i (executing p),
                 results = results p @ [outcome i], waiting = False\<rparr>"
    by (auto split: if_splits)
  from i have "add_mset i (mset (remove1 i (executing p))) = mset (executing p)"
    by simp
  moreover from i have "length (remove1 i (executing p)) + 1 = length (executing p)"
    by (simp add: length_remove1) (cases "executing p", auto)
  ultimately show ?thesis
    by (simp add: p' Settle)
qed

lemma settles_append: "settles (xs @ ys) = settles xs @ settles ys"
  by (induction xs rule: settles.induct) simp_all

lemma pool_run_results:
  "pool_run limit outcome evs p = Some p' \<Longrightarrow>
   results p' = results p @ map outcome (settles evs) \<and>
   mset (pending p') + mset (executing p') + mset (settles evs) =
     mset (pending p) + mset (executing p) \<and>
   2 * length (pending p') + length (executing p') + length evs =
     2 * length (pending p) + length (executing p)"
proof (induction evs arbitrary: p)
  case Nil
  then show ?case by simp
next
  case (Cons e evs)
  then obtain q where q: "pool_step limit outcome e p = Some q"
    and run: "pool_run limit outcome evs q = Some p'"
    by (auto split: option.splits)
  have s: "settles (e # evs) = settles [e] @ settles evs"
    using settles_append [of "[e]" evs] by simp
  note st = pool_step_results [OF q] and ih = Cons.IH [OF run]
  have r: "results p' = results p @ map outcome (settles (e # evs))"
    using st ih by (simp add: s)
  have "mset (pending p') + mset (executing p') + mset (settles (e # evs)) =
      (mset (pending p') + mset (executing p') + mset (settles evs)) + mset (settles [e])"
    by (simp add: s)
  also have "\<dots> = mset (pending q) + mset (executing q) + mset (settles [e])"
    using ih by simp
  also have "\<dots> = mset (pending p) + mset (executing p)"
    using st by simp
  finally have m: "mset (pending p') + mset (executing p') + mset (settles (e # evs)) =
      mset (pending p) + mset (executing p)" .
  have l: "2 * length (pending p') + length (executing p') + length (e # evs) =
      2 * length (pending p) + length (executing p)"
    using st ih by simp
  from r m l show ?case by blast
qed

lemma pool_run_sequential:
  assumes "0 < limit"
  shows "pool_run limit outcome (concat (map (\<lambda>i. [Admit, Settle i]) is))
           \<lparr>pending = is, executing = [], results = rs, waiting = False\<rparr> =
         Some \<lparr>pending = [], executing = [], results = rs @ map outcome is, waiting = False\<rparr>"
  using assms by (induction "is" arbitrary: rs) simp_all

text \<open>
  A run never deadlocks and never runs forever: from the initial state of
  \<open>n\<close> tasks every schedule has at most \<open>2 * n\<close> events, the function has returned
  exactly when \<open>2 * n\<close> events have happened, and before that some event can happen.
\<close>

theorem pool_progress:
  assumes "0 < limit" "pool_run limit outcome evs (pool_init n) = Some p"
  shows "length evs \<le> 2 * n \<and>
         ((pending p = [] \<and> executing p = []) = (length evs = 2 * n)) \<and>
         (length evs < 2 * n \<longrightarrow> (\<exists>e. pool_step limit outcome e p \<noteq> None))"
proof -
  from pool_run_results [OF assms(2)]
  have l: "2 * length (pending p) + length (executing p) + length evs = 2 * n"
    by (simp add: pool_init_def)
  have inv: "pool_inv limit p"
    using assms by (blast intro: pool_run_inv pool_init_inv)
  have "\<exists>e. pool_step limit outcome e p \<noteq> None" if "length evs < 2 * n"
  proof (cases "executing p")
    case Nil
    with l that obtain i rest where pend: "pending p = i # rest"
      by (cases "pending p") auto
    from Nil inv assms(1) have "\<not> waiting p" by (simp add: pool_inv_def)
    with pend have "pool_step limit outcome Admit p \<noteq> None" by simp
    then show ?thesis ..
  next
    case (Cons i rest)
    then have "pool_step limit outcome (Settle i) p \<noteq> None" by simp
    then show ?thesis ..
  qed
  with l show ?thesis by auto
qed

theorem pool_progress_witness:
  "pool_run 2 (\<lambda>i. i) [Admit, Admit, Settle 1] (pool_init 2) =
     Some \<lparr>pending = [], executing = [0], results = [1], waiting = False\<rparr> \<and>
   length [Admit, Admit, Settle 1] < 2 * (2::nat) \<and>
   pool_step 2 (\<lambda>i. i) (Settle 0)
       \<lparr>pending = [], executing = [0], results = [1::nat], waiting = False\<rparr> \<noteq> None"
proof -
  have run: "pool_run 2 (\<lambda>i. i) [Admit, Admit, Settle 1] (pool_init 2) =
     Some \<lparr>pending = [], executing = [0], results = [1], waiting = False\<rparr>"
    by (simp add: pool_init_def upt_rec)
  have pos: "0 < (2::nat)" by simp
  from pool_progress [OF pos run]
  have "\<exists>e. pool_step 2 (\<lambda>i. i) e
       \<lparr>pending = [], executing = [0], results = [1::nat], waiting = False\<rparr> \<noteq> None"
    by simp
  then show ?thesis using run by simp
qed

section \<open>Properties of the generation effect\<close>

lemma orderResults_prefix:
  "length rs \<le> cnt \<Longrightarrow>
   orderResults cnt rs = map or_null rs @ replicate (cnt - length rs) None"
proof (induction rs rule: rev_induct)
  case Nil
  then show ?case by (simp add: orderResults_def)
next
  case (snoc r rs)
  then have IH: "orderResults cnt rs = map or_null rs @ replicate (cnt - length rs) None"
    and lt: "length rs < cnt"
    by simp_all
  from lt obtain m where m: "cnt - length rs = Suc m" "cnt - Suc (length rs) = m"
    by (cases "cnt - length rs") auto
  have step: "orderResults cnt (rs @ [r]) =
      (if truthy r then js_assign (orderResults cnt rs) (length rs) r else orderResults cnt rs)"
    by (simp add: orderResults_def)
  have len: "length (orderResults cnt rs) = cnt"
    using lt by (simp add: IH)
  show ?case
    using lt by (simp add: step IH m js_assign_def or_null_def list_update_append)
qed

lemma orderResults_full: "length rs = cnt \<Longrightarrow> orderResults cnt rs = map or_null rs"
  by (simp add: orderResults_prefix)

text \<open>
  Whenever \<open>generate\<close> returns, every task has settled exactly once, the
  sequence has exactly \<open>cnt\<close> slots, and slot \<open>j\<close> holds the result of the extraction
  that settled in place \<open>j\<close>: a handle, or absent where that extraction failed. A failed
  extraction changes no other extraction's result and raises nothing.
\<close>

theorem generate_shape:
  assumes "generate cnt limit getThumbnailAsync dur sched = Some ts"
  shows "mset (settles sched) = mset [0..<cnt] \<and> length ts = cnt \<and>
         ts = map (\<lambda>i. or_null (getThumbnailAsync (timeMs dur cnt i))) (settles sched)"
proof -
  let ?task = "thumbnailTask getThumbnailAsync dur cnt False"
  from assms obtain p where run: "pool_run limit ?task sched (pool_init cnt) = Some p"
    and fin: "pending p = []" "executing p = []"
    and ts: "ts = orderResults cnt (results p)"
    by (auto simp: generate_def generateThumbnailsWithLimit_def split: option.splits if_splits)
  from pool_run_results [OF run] fin
  have rs: "results p = map ?task (settles sched)"
    and ms: "mset (settles sched) = mset [0..<cnt]"
    by (simp_all add: pool_init_def)
  from ms have len: "length (settles sched) = cnt"
    using mset_eq_length by fastforce
  from ms have "set (settles sched) = {0..<cnt}"
    using mset_eq_setD by fastforce
  then have "map ?task (settles sched) =
      map (\<lambda>i. getThumbnailAsync (timeMs dur cnt i)) (settles sched)"
    by (simp add: thumbnailTask_def)
  then have "ts = map (\<lambda>i. or_null (getThumbnailAsync (timeMs dur cnt i))) (settles sched)"
    using ts rs len by (simp add: orderResults_full comp_def)
  with ms len show ?thesis by simp
qed

lemma generateThumbnailsWithLimit_low_end_schedule:
  "generateThumbnailsWithLimit 6 f 2 low_end_schedule = Some [f 1, f 0, f 2, f 3, f 4, f 5]"
  by (simp add: generateThumbnailsWithLimit_def pool_init_def low_end_schedule_def upt_rec)

lemma generateThumbnailsWithLimit_in_order_schedule:
  "generateThumbnailsWithLimit 6 f 2 in_order_schedule = Some [f 0, f 1, f 2, f 3, f 4, f 5]"
  by (simp add: generateThumbnailsWithLimit_def pool_init_def in_order_schedule_def upt_rec)

lemma thumbnailTask_60_6:
  "map (thumbnailTask g 60 6 False) [0, 1, 2, 3, 4, 5] =
     [g 0, g 10000, g 20000, g 30000, g 40000, g 50000]"
  by (simp add: thumbnailTask_def timeMs_def)

theorem generate_shape_witness:
  "generate 6 2 frames_first_fails 60 in_order_schedule =
     Some [None, Some ''f10'', Some ''f20'', Some ''f30'', Some ''f40'', Some ''f50''] \<and>
   mset (settles in_order_schedule) = mset [0..<6] \<and>
   length [None, Some ''f10'', Some ''f20'', Some ''f30'', Some ''f40'', Some ''f50''] = (6::nat)"
proof -
  have g: "generate 6 2 frames_first_fails 60 in_order_schedule =
     Some [None, Some ''f10'', Some ''f20'', Some ''f30'', Some ''f40'', Some ''f50'']"
    using thumbnailTask_60_6 [of frames_first_fails]
    by (simp add: generate_def generateThumbnailsWithLimit_in_order_schedule
        orderResults_full or_null_def truthy_def frames_def frames_first_fails_def)
  from generate_shape [OF g]
  have "mset (settles in_order_schedule) = mset [0..<6]"
    by blast
  with g show ?thesis by simp
qed

text \<open>
  For a positive limit \<open>generate\<close> returns under the sequential schedule,
  and there slot \<open>i\<close> holds the result of the extraction for sample \<open>i\<close>.
\<close>

theorem generate_sequential_returns:
  assumes "0 < limit"
  shows "generate cnt limit getThumbnailAsync dur (sequential_schedule cnt) =
         Some (map (\<lambda>i. or_null (getThumbnailAsync (timeMs dur cnt i))) [0..<cnt])"
proof -
  let ?task = "thumbnailTask getThumbnailAsync dur cnt False"
  have "generateThumbnailsWithLimit cnt ?task limit (sequential_schedule cnt) =
      Some (map ?task [0..<cnt])"
    using pool_run_sequential [OF assms, of ?task "[0..<cnt]" "[]"]
    by (simp add: generateThumbnailsWithLimit_def sequential_schedule_def pool_init_def)
  moreover have "map ?task [0..<cnt] = map (\<lambda>i. getThumbnailAsync (timeMs dur cnt i)) [0..<cnt]"
    by (simp add: thumbnailTask_def)
  ultimately show ?thesis
    by (simp add: generate_def orderResults_full comp_def)
qed

theorem generate_sequential_returns_witness:
  "generate 2 2 frames 60 (sequential_schedule 2) = Some [Some ''f0'', Some ''f30'']"
proof -
  have pos: "0 < (2::nat)" by simp
  have t: "timeMs 60 2 0 = 0" "timeMs 60 2 (Suc 0) = 30000"
    by (simp_all add: timeMs_def)
  show ?thesis
    using generate_sequential_returns [OF pos, of 2 frames 60]
    by (simp add: upt_rec t or_null_def truthy_def frames_def)
qed

text \<open>
  Claim C1. The claim asks that the thumbnail of sample \<open>i\<close> lands in slot \<open>i\<close> whatever
  the order in which the extractions settle. The code does not do that: \<open>results\<close> is
  filled in the order of settling and \<open>forEach\<close> copies position \<open>idx\<close> of \<open>results\<close> to
  slot \<open>idx\<close>. On a low-end device, when all six extractions succeed and extraction 1
  settles before extraction 0, slot 0 holds the frame of sample 1 and slot 1 the frame
  of sample 0; when they settle in order, every frame is in its own slot.
\<close>

theorem slots_follow_completion_order:
  "thumbnailTask frames 60 (THUMBNAIL_COUNT True) False 0 = Some ''f0'' \<and>
   thumbnailTask frames 60 (THUMBNAIL_COUNT True) False 1 = Some ''f10'' \<and>
   generate (THUMBNAIL_COUNT True) (MAX_CONCURRENT_THUMBNAILS True) frames 60 in_order_schedule =
     Some [Some ''f0'', Some ''f10'', Some ''f20'', Some ''f30'', Some ''f40'', Some ''f50''] \<and>
   generate (THUMBNAIL_COUNT True) (MAX_CONCURRENT_THUMBNAILS True) frames 60 low_end_schedule =
     Some [Some ''f10'', Some ''f0'', Some ''f20'', Some ''f30'', Some ''f40'', Some ''f50'']"
  using thumbnailTask_60_6 [of frames]
  by (simp add: generate_def THUMBNAIL_COUNT_def MAX_CONCURRENT_THUMBNAILS_def
      generateThumbnailsWithLimit_low_end_schedule generateThumbnailsWithLimit_in_order_schedule
      orderResults_full or_null_def truthy_def frames_def)

text \<open>
  Claim C5. The claim asks that a failed extraction leaves its own slot absent. With the
  same schedule and the extraction of sample 0 failing, the sequence still has six
  slots, but slot 0 holds the frame of sample 1 and the absent slot is slot 1, whose
  extraction succeeded.
\<close>

theorem failed_extraction_fills_other_slot:
  "thumbnailTask frames_first_fails 60 (THUMBNAIL_COUNT True) False 0 = None \<and>
   thumbnailTask frames_first_fails 60 (THUMBNAIL_COUNT True) False 1 = Some ''f10'' \<and>
   generate (THUMBNAIL_COUNT True) (MAX_CONCURRENT_THUMBNAILS True) frames_first_fails 60
       low_end_schedule =
     Some [Some ''f10'', None, Some ''f20'', Some ''f30'', Some ''f40'', Some ''f50'']"
  using thumbnailTask_60_6 [of frames_first_fails]
  by (simp add: generate_def THUMBNAIL_COUNT_def MAX_CONCURRENT_THUMBNAILS_def
      generateThumbnailsWithLimit_low_end_schedule
      orderResults_full or_null_def truthy_def frames_def frames_first_fails_def)

text \<open>
  Claim C8. The tasks request \<open>cnt\<close> timestamps; the one of slot \<open>i\<close> is
  \<open>(D / cnt) * i\<close> seconds, passed to the extraction primitive in milliseconds. For 100
  seconds and 10 thumbnails they are 0, 10, ..., 90 seconds.
\<close>

theorem sample_timestamps:
  "length (requestedTimes D N) = N \<and>
   (\<forall>i<N. requestedTimes D N ! i / 1000 = (D / real N) * real i \<and>
           thumbnailTask getThumbnailAsync D N False i =
             getThumbnailAsync ((D / real N) * real i * 1000)) \<and>
   map (\<lambda>t. t / 1000) (requestedTimes 100 10) = [0, 10, 20, 30, 40, 50, 60, 70, 80, 90]"
proof -
  have "map (\<lambda>t. t / 1000) (requestedTimes 100 10) = [0, 10, 20, 30, 40, 50, 60, 70, 80, 90]"
    by (simp add: requestedTimes_def timeMs_def upt_rec)
  then show ?thesis
    by (simp add: requestedTimes_def thumbnailTask_def timeMs_def)
qed

theorem sample_timestamps_witness:
  "(3::nat) < 6 \<and> requestedTimes 60 6 ! 3 / 1000 = 30 \<and>
   thumbnailTask (\<lambda>t. if t = 30000 then Some ''f30'' else None) 60 6 False 3 = Some ''f30''"
  using sample_timestamps [of 60 6 "\<lambda>t. if t = 30000 then Some ''f30'' else None"]
  by simp

section \<open>Cancellation and caching of a run\<close>

lemma abort_fields [simp]:
  "thumbnails (abort x s) = thumbnails s"
  "isLoadingThumbnails (abort x s) = isLoadingThumbnails s"
  "isMounted (abort x s) = isMounted s"
  "abortControllerRef (abort x s) = abortControllerRef s"
  "nextCtl (abort x s) = nextCtl s"
  "cleanupCtl (abort x s) = cleanupCtl s"
  "runs (abort x s) = runs s"
  "cache (abort x s) = cache s"
  by (simp_all add: abort_def split: option.splits)

lemma abort_aborted: "set (abortedCtls (abort x s)) = set (abortedCtls s) \<union> set_option x"
  by (auto simp: abort_def split: option.splits)

lemma runResolved_aborted_fields [simp]:
  "abortedCtls (runResolved cnt c rs s) = abortedCtls s"
  "cleanupCtl (runResolved cnt c rs s) = cleanupCtl s"
  "runs (runResolved cnt c rs s) = runs s"
  by (simp_all add: runResolved_def Let_def split: option.splits)

lemma generationEffect_aborted_mono:
  "set (abortedCtls s) \<union> set_option (cleanupCtl s) \<subseteq>
     set (abortedCtls (generationEffect cnt videoUri dur s))"
  by (auto simp: generationEffect_def Let_def abort_aborted split: option.splits)

lemma screen_step_aborted_mono:
  "c \<in> set (abortedCtls s) \<Longrightarrow> c \<in> set (abortedCtls (screen_step cnt e s))"
proof (cases e)
  case (GenerationEffect videoUri dur)
  assume "c \<in> set (abortedCtls s)"
  then show ?thesis
    using generationEffect_aborted_mono [of s cnt videoUri dur] GenerationEffect by auto
qed (auto simp: abort_aborted)

lemma runResolved_cancelled:
  "c \<in> set (abortedCtls s) \<Longrightarrow> runResolved cnt c rs s = s"
  by (simp add: runResolved_def split: option.splits)

lemma cancelled_resolutions_dropped:
  "c \<in> set (abortedCtls s) \<Longrightarrow>
   screen_run cnt (filter (\<lambda>e. \<not> resolves c e) es) s = screen_run cnt es s"
proof (induction es arbitrary: s)
  case Nil
  then show ?case by simp
next
  case (Cons e es)
  show ?case
  proof (cases "resolves c e")
    case True
    then obtain rs where "e = RunResolved c rs" by (cases e) auto
    then show ?thesis
      using Cons by (simp add: runResolved_cancelled)
  next
    case False
    then show ?thesis
      using Cons screen_step_aborted_mono [of c s cnt e] by simp
  qed
qed

lemma runs_inv_init: "runs_inv (screen_init cnt c0)"
  by (simp add: runs_inv_def screen_init_def)

lemma runs_generationEffect:
  "runs (generationEffect cnt videoUri dur s) = runs s \<or>
   (runs (generationEffect cnt videoUri dur s) = (nextCtl s, cacheKey videoUri dur) # runs s \<and>
    cleanupCtl (generationEffect cnt videoUri dur s) = Some (nextCtl s))"
  by (auto simp: generationEffect_def Let_def split: option.splits)

lemma runs_inv_step:
  assumes "runs_inv s"
  shows "runs_inv (screen_step cnt e s)"
proof (cases e)
  case Mount
  with assms show ?thesis by (simp add: runs_inv_def)
next
  case Unmount
  with assms show ?thesis
    by (auto simp: runs_inv_def abort_aborted list_all_iff)
next
  case (GenerationEffect videoUri dur)
  let ?s' = "generationEffect cnt videoUri dur s"
  have old: "\<forall>r\<in>set (runs s). fst r \<in> set (abortedCtls ?s')"
    using assms generationEffect_aborted_mono [of s cnt videoUri dur]
    by (auto simp: runs_inv_def list_all_iff)
  from runs_generationEffect [of cnt videoUri dur s] show ?thesis
    using old GenerationEffect by (auto simp: runs_inv_def list_all_iff)
next
  case (RunResolved c rs)
  with assms show ?thesis by (simp add: runs_inv_def)
qed

lemma runs_inv_run: "runs_inv s \<Longrightarrow> runs_inv (screen_run cnt es s)"
  by (induction es arbitrary: s) (simp_all add: runs_inv_step)

lemma cancelling_event_aborts:
  assumes "runs_inv s" "c \<in> fst ` set (runs s)"
    and "e = Unmount \<or> e = GenerationEffect videoUri dur"
  shows "c \<in> set (abortedCtls (screen_step cnt e s))"
proof -
  from assms(1,2) have "c \<in> set (abortedCtls s) \<or> cleanupCtl s = Some c"
    by (auto simp: runs_inv_def list_all_iff)
  then show ?thesis
    using assms(3) generationEffect_aborted_mono [of s cnt videoUri dur]
    by (auto simp: abort_aborted)
qed

text \<open>
  Claim C3. Once the controller of a run is aborted, the resolutions of that run change
  nothing: whatever happens afterwards, the state of the screen and the cache are the
  ones reached when those resolutions are left out. And every started run of a screen is
  cancelled by the next run of the effect and by the unmount.
\<close>

theorem cancelled_run_never_writes:
  "(c \<in> set (abortedCtls s) \<longrightarrow>
      screen_run cnt (filter (\<lambda>e. \<not> resolves c e) es) s = screen_run cnt es s) \<and>
   (s = screen_run cnt es0 (screen_init cnt c0) \<and> c \<in> fst ` set (runs s) \<and>
    (e = Unmount \<or> e = GenerationEffect videoUri dur) \<longrightarrow>
      c \<in> set (abortedCtls (screen_step cnt e s)))"
  using cancelled_resolutions_dropped [of c s cnt es]
    cancelling_event_aborts [of s c e videoUri dur cnt]
    runs_inv_run [OF runs_inv_init, where cnt = cnt and es = es0 and ?c0.1 = c0]
  by blast

lemma cacheKey_60: "cacheKey u 60 = u @ ''_60''"
  by (simp add: cacheKey_def Math_round_def show_int_def show_nat.simps digit_char_def)

lemma cacheKey_30: "cacheKey u 30 = u @ ''_30''"
  by (simp add: cacheKey_def Math_round_def show_int_def show_nat.simps digit_char_def)

lemma first_run_screen_eq:
  "first_run_screen =
     \<lparr>thumbnails = replicate 6 None, isLoadingThumbnails = True, isMounted = True,
      abortControllerRef = Some 0, abortedCtls = [], nextCtl = 1, cleanupCtl = Some 0,
      runs = [(0, ''a.mp4_60'')], cache = []\<rparr>"
  by (simp add: first_run_screen_def generationEffect_def screen_init_def abort_def
      cache_get_def cacheKey_60)

lemma superseded_screen_eq:
  "superseded_screen =
     \<lparr>thumbnails = replicate 6 None, isLoadingThumbnails = True, isMounted = True,
      abortControllerRef = Some 1, abortedCtls = [0], nextCtl = 2, cleanupCtl = Some 1,
      runs = [(1, ''b.mp4_30''), (0, ''a.mp4_60'')], cache = []\<rparr>"
  by (simp add: superseded_screen_def first_run_screen_eq generationEffect_def abort_def
      cache_get_def cacheKey_30)

lemma orderResults_frames_a: "orderResults 6 frames_a = frames_a"
  by (simp add: orderResults_def frames_a_def upt_rec truthy_def js_assign_def eval_nat_numeral)

lemma orderResults_frames_b: "orderResults 6 frames_b = frames_b"
  by (simp add: orderResults_def frames_b_def upt_rec truthy_def js_assign_def eval_nat_numeral)

theorem cancelled_run_never_writes_witness:
  "0 \<in> set (abortedCtls superseded_screen) \<and>
   screen_run 6 [RunResolved 1 frames_b, RunResolved 0 frames_a] superseded_screen =
     screen_run 6 [RunResolved 1 frames_b] superseded_screen \<and>
   thumbnails (screen_run 6 [RunResolved 1 frames_b, RunResolved 0 frames_a] superseded_screen) =
     frames_b \<and>
   map fst (cache (screen_run 6 [RunResolved 1 frames_b, RunResolved 0 frames_a] superseded_screen)) =
     [''b.mp4_30''] \<and>
   first_run_screen = screen_run 6 [GenerationEffect ''a.mp4'' 60] (screen_init 6 []) \<and>
   0 \<in> fst ` set (runs first_run_screen) \<and>
   0 \<in> set (abortedCtls (screen_step 6 Unmount first_run_screen))"
proof -
  have h1: "0 \<in> set (abortedCtls superseded_screen)"
    by (simp add: superseded_screen_eq)
  have h2: "first_run_screen = screen_run 6 [GenerationEffect ''a.mp4'' 60] (screen_init 6 [])"
    by (simp add: first_run_screen_def)
  have h3: "0 \<in> fst ` set (runs first_run_screen)"
    by (simp add: first_run_screen_eq)
  from cancelled_run_never_writes [of 0 superseded_screen 6
      "[RunResolved 1 frames_b, RunResolved 0 frames_a]"] h1
  have a: "screen_run 6 [RunResolved 1 frames_b, RunResolved 0 frames_a] superseded_screen =
     screen_run 6 [RunResolved 1 frames_b] superseded_screen"
    by simp
  from cancelled_run_never_writes [of 0 first_run_screen 6 "[]"
      "[GenerationEffect ''a.mp4'' 60]" "[]" Unmount] h2 h3
  have b: "0 \<in> set (abortedCtls (screen_step 6 Unmount first_run_screen))"
    by blast
  have c: "screen_run 6 [RunResolved 1 frames_b] superseded_screen =
      superseded_screen\<lparr>thumbnails := frames_b, isLoadingThumbnails := False,
        cache := [(''b.mp4_30'', frames_b)]\<rparr>"
    by (simp add: superseded_screen_eq runResolved_def orderResults_frames_b cache_set_def
        maxSize_def) (simp add: frames_b_def)
  show ?thesis
    using h1 h2 h3 b unfolding a c by simp
qed

lemma cache_get_set: "cache_get (cache_set c k v) k = Some v"
  by (simp add: cache_get_def cache_set_def js_map_set_lookup)

lemma Math_round_round: "Math_round x = round x"
  by (simp add: Math_round_def round_def)

lemma cacheKey_round: "cacheKey videoUri dur = videoUri @ ''_'' @ show_int (round dur)"
  by (simp add: cacheKey_def Math_round_round)

lemma generationEffect_registers:
  assumes "0 < dur" "videoUri \<noteq> []" "isMounted s"
    and "case cache_get (cache s) (cacheKey videoUri dur) of
           None \<Rightarrow> True | Some cached \<Rightarrow> length cached \<noteq> cnt"
  shows "map_of (runs (generationEffect cnt videoUri dur s)) (nextCtl s) = Some (cacheKey videoUri dur)"
  using assms by (auto simp: generationEffect_def Let_def split: option.splits)

lemma runResolved_caches:
  assumes "map_of (runs s) c = Some key" "c \<notin> set (abortedCtls s)" "isMounted s"
  shows "thumbnails (runResolved cnt c rs s) = orderResults cnt rs \<and>
         (list_ex (\<lambda>r. r \<noteq> None) (orderResults cnt rs) \<longrightarrow>
            cache_get (cache (runResolved cnt c rs s)) key = Some (orderResults cnt rs)) \<and>
         (\<not> list_ex (\<lambda>r. r \<noteq> None) (orderResults cnt rs) \<longrightarrow>
            cache (runResolved cnt c rs s) = cache s)"
  using assms by (simp add: runResolved_def Let_def cache_get_set)

text \<open>
  Claim C7. The key of a run is the media, an underscore and the duration rounded to the
  nearest whole number (a tie going up), printed in decimal; a run of the effect that
  starts a generation registers the run under that key. When a run that is not
  cancelled resolves on a mounted screen, the ordered sequence becomes the thumbnails;
  if one of its slots is not absent the whole sequence is stored in the cache under
  that key; if every slot is absent the cache is left as it was.
\<close>

theorem completed_run_caches_unless_all_absent:
  "cacheKey videoUri dur = videoUri @ ''_'' @ show_int (round dur) \<and>
   (0 < dur \<and> videoUri \<noteq> [] \<and> isMounted s0 \<and>
    (case cache_get (cache s0) (cacheKey videoUri dur) of
       None \<Rightarrow> True | Some cached \<Rightarrow> length cached \<noteq> cnt) \<longrightarrow>
      map_of (runs (screen_step cnt (GenerationEffect videoUri dur) s0)) (nextCtl s0) =
        Some (videoUri @ ''_'' @ show_int (round dur))) \<and>
   (map_of (runs s) c = Some (videoUri @ ''_'' @ show_int (round dur)) \<and>
    c \<notin> set (abortedCtls s) \<and> isMounted s \<longrightarrow>
      thumbnails (screen_step cnt (RunResolved c rs) s) = orderResults cnt rs \<and>
      (list_ex (\<lambda>r. r \<noteq> None) (orderResults cnt rs) \<longrightarrow>
         cache_get (cache (screen_step cnt (RunResolved c rs) s))
             (videoUri @ ''_'' @ show_int (round dur)) =
           Some (orderResults cnt rs)) \<and>
      (\<not> list_ex (\<lambda>r. r \<noteq> None) (orderResults cnt rs) \<longrightarrow>
         cache (screen_step cnt (RunResolved c rs) s) = cache s))"
proof (intro conjI impI)
  show "cacheKey videoUri dur = videoUri @ ''_'' @ show_int (round dur)"
    by (rule cacheKey_round)
next
  assume "0 < dur \<and> videoUri \<noteq> [] \<and> isMounted s0 \<and>
    (case cache_get (cache s0) (cacheKey videoUri dur) of
       None \<Rightarrow> True | Some cached \<Rightarrow> length cached \<noteq> cnt)"
  then show "map_of (runs (screen_step cnt (GenerationEffect videoUri dur) s0)) (nextCtl s0) =
        Some (videoUri @ ''_'' @ show_int (round dur))"
    using generationEffect_registers [of dur videoUri s0 cnt] by (simp add: cacheKey_round)
next
  assume a: "map_of (runs s) c = Some (videoUri @ ''_'' @ show_int (round dur)) \<and>
    c \<notin> set (abortedCtls s) \<and> isMounted s"
  note R = runResolved_caches [of s c "videoUri @ ''_'' @ show_int (round dur)" cnt rs]
  from a R show "thumbnails (screen_step cnt (RunResolved c rs) s) = orderResults cnt rs"
    by simp
  assume "list_ex (\<lambda>r. r \<noteq> None) (orderResults cnt rs)"
  with a R show "cache_get (cache (screen_step cnt (RunResolved c rs) s))
             (videoUri @ ''_'' @ show_int (round dur)) = Some (orderResults cnt rs)"
    by simp
next
  assume a: "map_of (runs s) c = Some (videoUri @ ''_'' @ show_int (round dur)) \<and>
    c \<notin> set (abortedCtls s) \<and> isMounted s"
  note R = runResolved_caches [of s c "videoUri @ ''_'' @ show_int (round dur)" cnt rs]
  assume "\<not> list_ex (\<lambda>r. r \<noteq> None) (orderResults cnt rs)"
  with a R show "cache (screen_step cnt (RunResolved c rs) s) = cache s"
    by simp
qed

lemma show_int_60: "show_int 60 = ''60''"
  by (simp add: show_int_def show_nat.simps digit_char_def)

lemma show_int_13: "show_int 13 = ''13''"
  by (simp add: show_int_def show_nat.simps digit_char_def)

lemma round_59_6: "round (298 / 5 :: real) = 60"
  by (simp add: round_def)

lemma round_12_5: "round (25 / 2 :: real) = 13"
  by (simp add: round_def)

lemma screen_init_fields:
  "isMounted (screen_init cnt c0)" "nextCtl (screen_init cnt c0) = 0"
  "cache (screen_init cnt c0) = c0"
  by (simp_all add: screen_init_def)

theorem completed_run_caches_unless_all_absent_witness:
  "cacheKey ''a.mp4'' (298 / 5) = ''a.mp4_60'' \<and>
   cacheKey ''a.mp4'' (25 / 2) = ''a.mp4_13'' \<and>
   map_of (runs fractional_run_screen) 0 = Some ''a.mp4_60'' \<and>
   0 \<notin> set (abortedCtls fractional_run_screen) \<and> isMounted fractional_run_screen \<and>
   list_ex (\<lambda>r. r \<noteq> None) (orderResults 6 frames_a) \<and>
   cache_get (cache (screen_step 6 (RunResolved 0 frames_a) fractional_run_screen)) ''a.mp4_60'' =
     Some frames_a \<and>
   \<not> list_ex (\<lambda>r. r \<noteq> None) (orderResults 6 (replicate 6 None)) \<and>
   cache (screen_step 6 (RunResolved 0 (replicate 6 None)) fractional_run_screen) =
     cache fractional_run_screen"
proof -
  let ?d = "298 / 5 :: real"
  let ?k = "''a.mp4'' @ ''_'' @ show_int (round ?d)"
  note T = completed_run_caches_unless_all_absent
  have k: "?k = ''a.mp4_60''"
    by (simp add: round_59_6 show_int_60)
  from T [of "''a.mp4''" ?d] have k1: "cacheKey ''a.mp4'' ?d = ''a.mp4_60''"
    unfolding k by blast
  from T [of "''a.mp4''" "25 / 2"] have k2: "cacheKey ''a.mp4'' (25 / 2) = ''a.mp4_13''"
    by (simp add: round_12_5 show_int_13)
  have start: "0 < ?d \<and> ''a.mp4'' \<noteq> [] \<and> isMounted (screen_init 6 []) \<and>
      (case cache_get (cache (screen_init 6 [])) (cacheKey ''a.mp4'' ?d) of
         None \<Rightarrow> True | Some cached \<Rightarrow> length cached \<noteq> 6)"
    by (simp add: screen_init_fields cache_get_def)
  from T [where videoUri = "''a.mp4''" and dur = ?d and ?s0.0 = "screen_init 6 []" and cnt = 6] start
  have h1: "map_of (runs fractional_run_screen) 0 = Some ?k"
    unfolding fractional_run_screen_def by (simp add: screen_init_fields)
  have h2: "0 \<notin> set (abortedCtls fractional_run_screen)"
    and h3: "isMounted fractional_run_screen"
    by (simp_all add: fractional_run_screen_def generationEffect_def screen_init_def abort_def
        cache_get_def Let_def)
  have h4: "list_ex (\<lambda>r. r \<noteq> None) (orderResults 6 frames_a)"
    by (simp add: orderResults_frames_a) (simp add: frames_a_def)
  have o: "orderResults 6 (replicate 6 None) = replicate 6 None"
    by (simp add: orderResults_full or_null_def truthy_def)
  have h5: "\<not> list_ex (\<lambda>r. r \<noteq> None) (orderResults 6 (replicate 6 None))"
    by (simp add: o list_ex_iff)
  from T [where videoUri = "''a.mp4''" and dur = ?d and cnt = 6 and s = fractional_run_screen
      and c = 0 and rs = frames_a] h1 h2 h3 h4
  have a: "cache_get (cache (screen_step 6 (RunResolved 0 frames_a) fractional_run_screen)) ?k =
      Some (orderResults 6 frames_a)"
    by blast
  from T [where videoUri = "''a.mp4''" and dur = ?d and cnt = 6 and s = fractional_run_screen
      and c = 0 and rs = "replicate 6 None"] h1 h2 h3 h5
  have b: "cache (screen_step 6 (RunResolved 0 (replicate 6 None)) fractional_run_screen) =
      cache fractional_run_screen"
    by blast
  show ?thesis
    using k1 k2 h1 h2 h3 h4 h5 a b unfolding k orderResults_frames_a by blast
qed

section \<open>Properties of the playback position and the gestures\<close>

text \<open>
  Claim C4, as the code has it. A time update during a drag changes nothing. Outside a
  drag, with a known duration (\<open>duration > 0\<close>), it sets the progress to
  \<open>currentTime / duration\<close> and the display time to \<open>currentTime\<close>. Outside a drag, while
  the duration is not known yet, it changes nothing.
\<close>

theorem time_update_guarded_by_duration:
  "(isDragging s \<longrightarrow> timeUpdate t s = s) \<and>
   (\<not> isDragging s \<and> 0 < duration s \<longrightarrow>
      progress (timeUpdate t s) = t / duration s \<and> displayTime (timeUpdate t s) = t) \<and>
   (\<not> isDragging s \<and> duration s \<le> 0 \<longrightarrow> timeUpdate t s = s)"
  by (simp add: timeUpdate_def)

theorem time_update_guarded_by_duration_witness:
  "isDragging (pan_onStart following_position) \<and>
   progress (timeUpdate 50 (pan_onStart following_position)) = 1 / 5 \<and>
   \<not> isDragging following_position \<and> 0 < duration following_position \<and>
   progress (timeUpdate 50 following_position) = 1 / 2 \<and>
   displayTime (timeUpdate 50 following_position) = 50 \<and>
   \<not> isDragging position_init \<and> duration position_init \<le> 0 \<and>
   timeUpdate 50 position_init = position_init"
proof -
  have h1: "isDragging (pan_onStart following_position)"
    by (simp add: pan_onStart_def)
  have h2: "\<not> isDragging following_position \<and> 0 < duration following_position"
    by (simp add: following_position_def)
  have h3: "\<not> isDragging position_init \<and> duration position_init \<le> 0"
    by (simp add: position_init_def)
  from time_update_guarded_by_duration [of "pan_onStart following_position" 50] h1
  have a: "timeUpdate 50 (pan_onStart following_position) = pan_onStart following_position"
    by blast
  from time_update_guarded_by_duration [of following_position 50] h2
  have b: "progress (timeUpdate 50 following_position) = 50 / duration following_position"
    "displayTime (timeUpdate 50 following_position) = 50"
    by blast+
  from time_update_guarded_by_duration [of position_init 50] h3
  have c: "timeUpdate 50 position_init = position_init"
    by blast
  have d: "progress (pan_onStart following_position) = 1 / 5" "50 / duration following_position = 1 / 2"
    by (simp_all add: pan_onStart_def following_position_def)
  show ?thesis using h1 h2 h3 b c d unfolding a by simp
qed

text \<open>
  The claim as stated fails before the duration is known: at the state of the mount a
  time update of one second leaves the display time at zero.
\<close>

theorem time_update_before_duration_counterexample:
  "\<not> isDragging position_init \<and> displayTime (timeUpdate 1 position_init) \<noteq> 1"
  by (simp add: timeUpdate_def position_init_def)

text \<open>
  Claim C6. On a timeline of positive width \<open>W\<close> the tap and the pan compute the progress
  \<open>clamp(x, 0, W) / W\<close> and the time \<open>progress * duration\<close>; the progress lies in
  \<open>[0, 1]\<close> for every \<open>x\<close>; a tap at \<open>0\<close>, \<open>W\<close> and \<open>W / 2\<close> seeks to \<open>0\<close>, the duration and
  half the duration.
\<close>

theorem pointer_to_progress_and_time:
  assumes "0 < W"
  shows "progress (tap_onEnd W x s) = clamp x 0 W / W \<and>
         playerCurrentTime (tap_onEnd W x s) = (clamp x 0 W / W) * duration s \<and>
         displayTime (tap_onEnd W x s) = (clamp x 0 W / W) * duration s \<and>
         progress (pan_onUpdate W x s) = clamp x 0 W / W \<and>
         displayTime (pan_onUpdate W x s) = (clamp x 0 W / W) * duration s \<and>
         playerCurrentTime (pan_onEnd W x s) = (clamp x 0 W / W) * duration s \<and>
         0 \<le> clamp x 0 W / W \<and> clamp x 0 W / W \<le> 1 \<and>
         playerCurrentTime (tap_onEnd W 0 s) = 0 \<and>
         playerCurrentTime (tap_onEnd W W s) = duration s \<and>
         playerCurrentTime (tap_onEnd W (W / 2) s) = duration s / 2"
proof -
  have c: "max 0 (min x W) = clamp x 0 W" for x
    using assms by (simp add: clamp_def max_def min_def)
  have "0 \<le> clamp x 0 W" "clamp x 0 W \<le> W"
    using assms by (simp_all add: clamp_def)
  then have r: "0 \<le> clamp x 0 W / W \<and> clamp x 0 W / W \<le> 1"
    using assms by simp
  have e: "clamp 0 0 W = 0" "clamp W 0 W = W" "clamp (W / 2) 0 W = W / 2"
    using assms by (simp_all add: clamp_def)
  show ?thesis
    using assms r by (simp add: tap_onEnd_def pan_onUpdate_def pan_onEnd_def Let_def c e)
qed

theorem pointer_to_progress_and_time_witness:
  "0 < TIMELINE_WIDTH 390 \<and>
   progress (tap_onEnd (TIMELINE_WIDTH 390) 500 following_position) = 1 \<and>
   playerCurrentTime (tap_onEnd (TIMELINE_WIDTH 390) 500 following_position) = 100 \<and>
   progress (pan_onUpdate (TIMELINE_WIDTH 390) (- 30) following_position) = 0 \<and>
   playerCurrentTime (tap_onEnd (TIMELINE_WIDTH 390) 175 following_position) = 50"
proof -
  have w: "TIMELINE_WIDTH 390 = 350" by (simp add: TIMELINE_WIDTH_def TIMELINE_PADDING_def)
  have pos: "0 < TIMELINE_WIDTH 390" by (simp add: w)
  have d: "duration following_position = 100" by (simp add: following_position_def)
  have c: "clamp 500 0 350 = 350" "clamp (- 30) 0 350 = 0" "clamp 175 0 350 = 175"
    by (simp_all add: clamp_def)
  show ?thesis
    using pos pointer_to_progress_and_time [OF pos, of 500 following_position]
      pointer_to_progress_and_time [OF pos, of "- 30" following_position]
      pointer_to_progress_and_time [OF pos, of 175 following_position]
    by (simp add: w d c)
qed

end
